theory Spec2Isabelle
  imports Main
begin

section \<open>Data model\<close>

text \<open>
  A Go \<^verbatim>\<open>time.Time\<close> is an instant on a linear time line; it is modelled by the
  integer count of its clock ticks. \<^verbatim>\<open>t.Before(u)\<close> reports whether \<open>t\<close> is
  strictly earlier than \<open>u\<close>.
\<close>

type_synonym time = int

definition Before :: "time \<Rightarrow> time \<Rightarrow> bool" where
  "Before t u = (t < u)"

text \<open>A Go \<^verbatim>\<open>error\<close> value that is not nil, with its message.\<close>

datatype error = Error string

text \<open>
  The list options the traversals hand to the client: the three fixed string parameters,
  the page size and the page cursor (\<^verbatim>\<open>ListOptions.Page\<close>, whose zero value asks
  for the first page).
\<close>

record ListOptions =
  Direction :: string
  Sort :: string
  State :: string
  PerPage :: int
  Page :: int

text \<open>The part of \<^verbatim>\<open>github.Response\<close> the traversals read.\<close>

record Response =
  NextPage :: int

text \<open>
  The items, with the fields the program reads. Their fields are pointers in the client
  library, so each one is an \<open>option\<close>, \<open>None\<close> standing for nil. The items
  themselves, the elements of the slice a list call returns, are taken to be non-nil.
\<close>

record Issue =
  Number :: "int option"
  Title :: "string option"
  CreatedAt :: "time option"

record PullRequest =
  Number :: "int option"
  Title :: "string option"
  CreatedAt :: "time option"

text \<open>The global \<^verbatim>\<open>CmdFlags\<close>, passed explicitly.\<close>

record CmdFlags =
  Username :: string
  Password :: string
  NoLogin :: bool
  TabSeparated :: bool
  Organization :: string
  Repository :: string
  Since :: string

definition GitHubMaxItemsPerPage :: int where
  "GitHubMaxItemsPerPage = 100"

text \<open>
  One list call of the client: owner, repository and options in; either an error
  (\<^verbatim>\<open>err != nil\<close>), or the items of the page with the response. The answer is taken
  to depend on the request alone: the remote collection does not change while it is
  traversed.
\<close>

type_synonym 'a page_result = "error + ('a list \<times> Response)"

type_synonym 'a endpoint = "string \<Rightarrow> string \<Rightarrow> ListOptions \<Rightarrow> 'a page_result"

record Client =
  Issues_ListByRepo :: "Issue endpoint"
  PullRequests_List :: "PullRequest endpoint"

section \<open>Effects\<close>

text \<open>
  What a traversal does to the world: the state the callback works on (\<open>sink\<close>), and
  two logs: the items the callback was invoked on, in order (\<open>calls\<close>), and the
  options of every list call made, in order (\<open>requests\<close>).
\<close>

record ('a, 's) effects =
  sink :: 's
  calls :: "'a list"
  requests :: "ListOptions list"

definition invoke :: "('a \<Rightarrow> 's \<Rightarrow> 's) \<Rightarrow> 'a \<Rightarrow> ('a, 's) effects \<Rightarrow> ('a, 's) effects" where
  "invoke fn i st = st\<lparr>sink := fn i (sink st), calls := calls st @ [i]\<rparr>"

definition request :: "ListOptions \<Rightarrow> ('a, 's) effects \<Rightarrow> ('a, 's) effects" where
  "request options st = st\<lparr>requests := requests st @ [options]\<rparr>"

section \<open>The traversal\<close>

text \<open>
  How the loop over the items of one page ends: it runs through all of them, it
  executes \<^verbatim>\<open>return nil\<close>, or it dereferences a nil \<^verbatim>\<open>CreatedAt\<close>.
\<close>

datatype flow = Exhausted | ReturnNil | NilDereference

text \<open>How a traversal ends: it returns an error value (\<open>None\<close> is nil), or it panics.\<close>

datatype outcome = Returned "error option" | Panicked

text \<open>
  \<^verbatim>\<open>
  for _, i := range issues {
      if i.CreatedAt.Before(since) {
          return nil
      }
      fn(i)
  }
  \<close>
\<close>

fun rangeItems :: "('a \<Rightarrow> time option) \<Rightarrow> time \<Rightarrow> ('a \<Rightarrow> 's \<Rightarrow> 's) \<Rightarrow> 'a list \<Rightarrow>
    ('a, 's) effects \<Rightarrow> flow \<times> ('a, 's) effects" where
  "rangeItems createdAt since fn [] st = (Exhausted, st)"
| "rangeItems createdAt since fn (i # items) st =
     (case createdAt i of
        None \<Rightarrow> (NilDereference, st)
      | Some t \<Rightarrow>
          if Before t since then (ReturnNil, st)
          else rangeItems createdAt since fn items (invoke fn i st))"

text \<open>
  The outer \<^verbatim>\<open>for { ... }\<close> of the four traversal functions, which differ in the item
  type and the list call only. The loop has no bound of its own, so the model counts
  iterations: the first argument is the number of iterations it may still run, and the
  first component of the result is \<open>None\<close> when they are used up before the loop has
  ended. The effects so far are returned in both cases.
  \<^verbatim>\<open>
  for {
      issues, response, err := client.Issues.ListByRepo(ctx, org, repo, &options)
      if err != nil {
          return err
      }
      for _, i := range issues { ... }
      if response.NextPage == 0 {
          break
      }
      options.Page = response.NextPage
  }
  return nil
  \<close>
\<close>

fun iterate :: "nat \<Rightarrow> ('a \<Rightarrow> time option) \<Rightarrow> (ListOptions \<Rightarrow> 'a page_result) \<Rightarrow> time \<Rightarrow>
    ('a \<Rightarrow> 's \<Rightarrow> 's) \<Rightarrow> ListOptions \<Rightarrow> ('a, 's) effects \<Rightarrow> outcome option \<times> ('a, 's) effects" where
  "iterate 0 createdAt list since fn options st = (None, st)"
| "iterate (Suc n) createdAt list since fn options st =
     (case list options of
        Inl err \<Rightarrow> (Some (Returned (Some err)), request options st)
      | Inr (items, response) \<Rightarrow>
          (case rangeItems createdAt since fn items (request options st) of
             (NilDereference, st') \<Rightarrow> (Some Panicked, st')
           | (ReturnNil, st') \<Rightarrow> (Some (Returned None), st')
           | (Exhausted, st') \<Rightarrow>
               if NextPage response = 0 then (Some (Returned None), st')
               else iterate n createdAt list since fn (options\<lparr>Page := NextPage response\<rparr>) st'))"

definition issueOptions :: ListOptions where
  "issueOptions = \<lparr>Direction = ''desc'', Sort = ''created'', State = ''all'',
     PerPage = GitHubMaxItemsPerPage, Page = 0\<rparr>"

definition pullRequestOptions :: ListOptions where
  "pullRequestOptions = \<lparr>Direction = ''desc'', Sort = ''created'', State = ''all'',
     PerPage = GitHubMaxItemsPerPage, Page = 0\<rparr>"

text \<open>
  The four traversal functions of the repository: \<^verbatim>\<open>iterateIssues\<close> and
  \<^verbatim>\<open>iteratePullRequests\<close> of \<^verbatim>\<open>ghdump.go\<close>, and \<^verbatim>\<open>IterateIssues\<close> and
  \<^verbatim>\<open>IteratePullRequests\<close> of its earlier version. Each one builds its options and
  runs the loop above on its own list call, with \<^verbatim>\<open>options.Page\<close> at its zero value.
\<close>

definition iterateIssues :: "nat \<Rightarrow> CmdFlags \<Rightarrow> Client \<Rightarrow> time \<Rightarrow> (Issue \<Rightarrow> 's \<Rightarrow> 's) \<Rightarrow>
    (Issue, 's) effects \<Rightarrow> outcome option \<times> (Issue, 's) effects" where
  "iterateIssues n flags client since fn st =
     iterate n Issue.CreatedAt
       (Issues_ListByRepo client (Organization flags) (Repository flags))
       since fn issueOptions st"

definition iteratePullRequests :: "nat \<Rightarrow> CmdFlags \<Rightarrow> Client \<Rightarrow> time \<Rightarrow>
    (PullRequest \<Rightarrow> 's \<Rightarrow> 's) \<Rightarrow> (PullRequest, 's) effects \<Rightarrow>
    outcome option \<times> (PullRequest, 's) effects" where
  "iteratePullRequests n flags client since fn st =
     iterate n PullRequest.CreatedAt
       (PullRequests_List client (Organization flags) (Repository flags))
       since fn pullRequestOptions st"

definition IterateIssues :: "nat \<Rightarrow> CmdFlags \<Rightarrow> Client \<Rightarrow> time \<Rightarrow> (Issue \<Rightarrow> 's \<Rightarrow> 's) \<Rightarrow>
    (Issue, 's) effects \<Rightarrow> outcome option \<times> (Issue, 's) effects" where
  "IterateIssues n flags client since fn st =
     iterate n Issue.CreatedAt
       (Issues_ListByRepo client (Organization flags) (Repository flags))
       since fn issueOptions st"

definition IteratePullRequests :: "nat \<Rightarrow> CmdFlags \<Rightarrow> Client \<Rightarrow> time \<Rightarrow>
    (PullRequest \<Rightarrow> 's \<Rightarrow> 's) \<Rightarrow> (PullRequest, 's) effects \<Rightarrow>
    outcome option \<times> (PullRequest, 's) effects" where
  "IteratePullRequests n flags client since fn st =
     iterate n PullRequest.CreatedAt
       (PullRequests_List client (Organization flags) (Repository flags))
       since fn pullRequestOptions st"

section \<open>Vocabulary of the specification\<close>

text \<open>
  An item is \<open>older\<close> when its creation timestamp is strictly before the cutoff, and
  \<open>current\<close> when it has a creation timestamp that is not. An item without a
  timestamp is neither.
\<close>

definition older :: "('a \<Rightarrow> time option) \<Rightarrow> time \<Rightarrow> 'a \<Rightarrow> bool" where
  "older createdAt since i =
     (case createdAt i of None \<Rightarrow> False | Some t \<Rightarrow> Before t since)"

definition current :: "('a \<Rightarrow> time option) \<Rightarrow> time \<Rightarrow> 'a \<Rightarrow> bool" where
  "current createdAt since i =
     (case createdAt i of None \<Rightarrow> False | Some t \<Rightarrow> \<not> Before t since)"

text \<open>
  Items in strictly descending creation-date order: every item has a timestamp, and
  each later item of the list was created strictly before each earlier one.
\<close>

definition descending :: "('a \<Rightarrow> time option) \<Rightarrow> 'a list \<Rightarrow> bool" where
  "descending createdAt items =
     (list_all (\<lambda>i. createdAt i \<noteq> None) items \<and>
      sorted_wrt (\<lambda>a b. case (createdAt a, createdAt b) of
                           (Some s, Some t) \<Rightarrow> Before t s
                         | _ \<Rightarrow> False) items)"

text \<open>The effects of invoking the callback on the items \<open>xs\<close>, one after the other.\<close>

definition visit :: "('a \<Rightarrow> 's \<Rightarrow> 's) \<Rightarrow> 'a list \<Rightarrow> ('a, 's) effects \<Rightarrow> ('a, 's) effects" where
  "visit fn xs st = st\<lparr>sink := fold fn xs (sink st), calls := calls st @ xs\<rparr>"

text \<open>
  \<open>serves list options pages\<close>: asked with \<open>options\<close>, and then with the page cursor
  set to the \<^verbatim>\<open>NextPage\<close> of each response in turn, the list call answers with
  exactly the pages \<open>pages\<close>, without an error; every response but the last names
  a next page, and the last one names none.
\<close>

fun serves :: "(ListOptions \<Rightarrow> 'a page_result) \<Rightarrow> ListOptions \<Rightarrow> 'a list list \<Rightarrow> bool" where
  "serves list options [] = False"
| "serves list options (pg # pgs) =
     (case list options of
        Inl err \<Rightarrow> False
      | Inr (items, response) \<Rightarrow>
          items = pg \<and>
          (if pgs = [] then NextPage response = 0
           else NextPage response \<noteq> 0 \<and>
                serves list (options\<lparr>Page := NextPage response\<rparr>) pgs))"

text \<open>
  \<open>leads list options pages options'\<close>: the list call answers with the pages
  \<open>pages\<close> as above, every response naming a next page, and the last of these
  cursors gives the options \<open>options'\<close> of the call that comes next.
\<close>

fun leads :: "(ListOptions \<Rightarrow> 'a page_result) \<Rightarrow> ListOptions \<Rightarrow> 'a list list \<Rightarrow>
    ListOptions \<Rightarrow> bool" where
  "leads list options [] options' = (options' = options)"
| "leads list options (pg # pgs) options' =
     (case list options of
        Inl err \<Rightarrow> False
      | Inr (items, response) \<Rightarrow>
          items = pg \<and> NextPage response \<noteq> 0 \<and>
          leads list (options\<lparr>Page := NextPage response\<rparr>) pgs options')"

text \<open>
  The options of the first \<open>k\<close> calls along the chain of next-page cursors that starts
  at \<open>options\<close>; the chain ends at an error and at a response that names no next page.
\<close>

fun cursors :: "(ListOptions \<Rightarrow> 'a page_result) \<Rightarrow> ListOptions \<Rightarrow> nat \<Rightarrow> ListOptions list" where
  "cursors list options 0 = []"
| "cursors list options (Suc k) =
     options #
     (case list options of
        Inl err \<Rightarrow> []
      | Inr (items, response) \<Rightarrow>
          if NextPage response = 0 then []
          else cursors list (options\<lparr>Page := NextPage response\<rparr>) k)"

text \<open>The pages up to and including the first one that holds an item with \<open>stop\<close>.\<close>

fun fetched :: "('a \<Rightarrow> bool) \<Rightarrow> 'a list list \<Rightarrow> 'a list list" where
  "fetched stop [] = []"
| "fetched stop (pg # pgs) =
     (if list_ex stop pg then [pg] else pg # fetched stop pgs)"

text \<open>
  \<open>ends_within createdAt list since options k\<close>: among the first \<open>k\<close> calls along the
  chain of next-page cursors from \<open>options\<close> there is one that returns an error, or
  whose response names no next page, or whose page holds an item that is not current.
\<close>

fun ends_within :: "('a \<Rightarrow> time option) \<Rightarrow> (ListOptions \<Rightarrow> 'a page_result) \<Rightarrow> time \<Rightarrow>
    ListOptions \<Rightarrow> nat \<Rightarrow> bool" where
  "ends_within createdAt list since options 0 = False"
| "ends_within createdAt list since options (Suc k) =
     (case list options of
        Inl err \<Rightarrow> True
      | Inr (items, response) \<Rightarrow>
          NextPage response = 0 \<or> list_ex (\<lambda>i. \<not> current createdAt since i) items \<or>
          ends_within createdAt list since (options\<lparr>Page := NextPage response\<rparr>) k)"

section \<open>Scenarios\<close>

text \<open>
  Concrete repositories, on which the theorems below are evaluated. Instants are
  written as the numbers \<open>yyyymmdd\<close>, which are ordered as the dates are.
\<close>

definition issue :: "int \<Rightarrow> time \<Rightarrow> Issue" where
  "issue k t =
     \<lparr>Issue.Number = Some k, Issue.Title = Some ''an issue'', Issue.CreatedAt = Some t\<rparr>"

definition pull :: "int \<Rightarrow> time \<Rightarrow> PullRequest" where
  "pull k t =
     \<lparr>PullRequest.Number = Some k, PullRequest.Title = Some ''a pull request'',
      PullRequest.CreatedAt = Some t\<rparr>"

definition widgets :: CmdFlags where
  "widgets = \<lparr>Username = '''', Password = '''', NoLogin = True, TabSeparated = False,
     Organization = ''acme'', Repository = ''widgets'', Since = ''2024-01-01''\<rparr>"

text \<open>
  Five issues in descending order on three pages; two pull requests on a first page,
  and an error for the page after it.
\<close>

definition acme :: Client where
  "acme = \<lparr>
     Issues_ListByRepo = (\<lambda>owner repo options.
       if owner = ''acme'' \<and> repo = ''widgets'' then
         (if Page options = 0 then
            Inr ([issue 5 20240201, issue 4 20240115], \<lparr>NextPage = 2\<rparr>)
          else if Page options = 2 then
            Inr ([issue 3 20231220, issue 2 20231101], \<lparr>NextPage = 3\<rparr>)
          else if Page options = 3 then
            Inr ([issue 1 20231001], \<lparr>NextPage = 0\<rparr>)
          else Inl (Error ''no such page''))
       else Inl (Error ''not found'')),
     PullRequests_List = (\<lambda>owner repo options.
       if Page options = 0 then
         Inr ([pull 7 20240301, pull 6 20240101], \<lparr>NextPage = 2\<rparr>)
       else Inl (Error ''connection reset''))\<rparr>"

text \<open>
  A first page of issues that is empty and names a next page, which holds one issue; a
  first page of pull requests that is empty and names no next page.
\<close>

definition hollow :: Client where
  "hollow = \<lparr>
     Issues_ListByRepo = (\<lambda>owner repo options.
       if Page options = 0 then Inr ([], \<lparr>NextPage = 2\<rparr>)
       else Inr ([issue 1 20240201], \<lparr>NextPage = 0\<rparr>)),
     PullRequests_List = (\<lambda>owner repo options. Inr ([], \<lparr>NextPage = 0\<rparr>))\<rparr>"

text \<open>
  Four issues on two full pages of two; three pull requests that are not in descending
  order, the second one older than the third.
\<close>

definition paired :: Client where
  "paired = \<lparr>
     Issues_ListByRepo = (\<lambda>owner repo options.
       if Page options = 0 then
         Inr ([issue 4 20240201, issue 3 20240115], \<lparr>NextPage = 2\<rparr>)
       else Inr ([issue 2 20231220, issue 1 20231101], \<lparr>NextPage = 0\<rparr>)),
     PullRequests_List = (\<lambda>owner repo options.
       Inr ([pull 3 20240301, pull 2 20231201, pull 1 20240201], \<lparr>NextPage = 0\<rparr>))\<rparr>"

text \<open>The effects before a traversal, and callbacks that write the item's number.\<close>

definition nothing :: "('a, int option list) effects" where
  "nothing = \<lparr>sink = [], calls = [], requests = []\<rparr>"

definition issueRow :: "Issue \<Rightarrow> int option list \<Rightarrow> int option list" where
  "issueRow i rows = rows @ [Issue.Number i]"

definition pullRequestRow :: "PullRequest \<Rightarrow> int option list \<Rightarrow> int option list" where
  "pullRequestRow p rows = rows @ [PullRequest.Number p]"

section \<open>The loop, one page at a time\<close>

lemma visit_Nil: "visit fn [] st = st"
  by (simp add: visit_def)

lemma visit_Cons: "visit fn (x # xs) st = visit fn xs (invoke fn x st)"
  by (simp add: visit_def invoke_def)

lemma visit_inject:
  assumes "visit fn d (st\<lparr>requests := requests st @ r\<rparr>) =
           visit fn d' (st\<lparr>requests := requests st @ r'\<rparr>)"
  shows "d = d' \<and> r = r'"
proof -
  from assms have "calls (visit fn d (st\<lparr>requests := requests st @ r\<rparr>)) =
      calls (visit fn d' (st\<lparr>requests := requests st @ r'\<rparr>))"
    by (rule arg_cong)
  then have d: "d = d'" by (simp add: visit_def)
  from assms have "requests (visit fn d (st\<lparr>requests := requests st @ r\<rparr>)) =
      requests (visit fn d' (st\<lparr>requests := requests st @ r'\<rparr>))"
    by (rule arg_cong)
  then have "r = r'" by (simp add: visit_def)
  with d show ?thesis by simp
qed

lemma current_iff_not_older:
  "createdAt i \<noteq> None \<Longrightarrow> current createdAt since i = (\<not> older createdAt since i)"
  by (auto simp add: current_def older_def)

lemma newer_current:
  "createdAt i = Some t \<Longrightarrow> Before since t \<Longrightarrow> current createdAt since i"
  by (simp add: current_def Before_def)

lemma older_not_current:
  "createdAt i = Some t \<Longrightarrow> Before t since \<Longrightarrow> \<not> current createdAt since i"
  by (simp add: current_def)

lemma current_dated: "current createdAt since i \<Longrightarrow> createdAt i \<noteq> None"
  by (cases "createdAt i") (simp_all add: current_def)

lemma current_not_older: "current createdAt since i \<Longrightarrow> \<not> older createdAt since i"
  by (simp add: current_def older_def split: option.splits)

lemma takeWhile_none: "\<forall>x\<in>set xs. \<not> P x \<Longrightarrow> takeWhile P xs = []"
  by (cases xs) auto

lemma list_all_takeWhile: "list_all P (takeWhile P xs)"
  by (induction xs) auto

lemma takeWhile_append_all:
  "list_all P xs \<Longrightarrow> takeWhile P (xs @ ys) = xs @ takeWhile P ys"
  by (simp add: list_all_iff)

lemma takeWhile_append_not_all:
  "\<not> list_all P xs \<Longrightarrow> takeWhile P (xs @ ys) = takeWhile P xs"
  by (induction xs) auto

lemma dropWhile_not_all:
  "\<not> list_all P xs \<Longrightarrow> \<exists>x rest. dropWhile P xs = x # rest \<and> x \<in> set xs \<and> \<not> P x"
  by (induction xs) auto

lemma fetched_cong:
  "\<forall>i\<in>set (concat pages). P i = Q i \<Longrightarrow> fetched P pages = fetched Q pages"
  by (induction pages) (auto simp add: list_ex_iff)

text \<open>
  The loop over one page invokes the callback on the longest prefix of current items,
  and ends according to the item that follows this prefix.
\<close>

lemma rangeItems_eq:
  "rangeItems c since fn items st =
     ((case dropWhile (current c since) items of
         [] \<Rightarrow> Exhausted
       | i # rest \<Rightarrow> if c i = None then NilDereference else ReturnNil),
      visit fn (takeWhile (current c since) items) st)"
proof (induction items arbitrary: st)
  case Nil
  show ?case by (simp add: visit_Nil)
next
  case (Cons i items)
  show ?case
  proof (cases "c i")
    case None
    then show ?thesis by (simp add: current_def visit_Nil)
  next
    case (Some t)
    then show ?thesis
      by (simp add: current_def visit_Nil visit_Cons Cons.IH)
  qed
qed

lemma iterate_error:
  "list options = Inl err \<Longrightarrow>
   iterate (Suc n) c list since fn options st = (Some (Returned (Some err)), request options st)"
  by simp

lemma iterate_page:
  assumes fetch: "list options = Inr (items, response)"
  shows "iterate (Suc n) c list since fn options st =
     (case dropWhile (current c since) items of
        [] \<Rightarrow>
          if NextPage response = 0
          then (Some (Returned None), visit fn items (request options st))
          else iterate n c list since fn (options\<lparr>Page := NextPage response\<rparr>)
                 (visit fn items (request options st))
      | i # rest \<Rightarrow>
          (Some (if c i = None then Panicked else Returned None),
           visit fn (takeWhile (current c since) items) (request options st)))"
proof (cases "dropWhile (current c since) items")
  case Nil
  then have tw: "takeWhile (current c since) items = items"
    by (simp add: takeWhile_eq_all_conv)
  show ?thesis by (simp add: fetch rangeItems_eq Nil tw)
next
  case (Cons i rest)
  show ?thesis by (simp add: fetch rangeItems_eq Cons)
qed

lemma iterate_page_stop:
  assumes "list options = Inr (items, response)"
    and "dropWhile (current c since) items = i # rest"
  shows "iterate (Suc n) c list since fn options st =
     (Some (if c i = None then Panicked else Returned None),
      visit fn (takeWhile (current c since) items) (request options st))"
  by (simp only: iterate_page [where list = list and options = options, OF assms(1)]
        assms(2) list.case)

lemma iterate_page_last:
  assumes "list options = Inr (items, response)"
    and "list_all (current c since) items" and "NextPage response = 0"
  shows "iterate (Suc n) c list since fn options st =
     (Some (Returned None), visit fn items (request options st))"
proof -
  from assms(2) have "dropWhile (current c since) items = []"
    by (simp add: list_all_iff)
  then show ?thesis
    by (simp only: iterate_page [where list = list and options = options, OF assms(1)]
          list.case if_P [OF assms(3)])
qed

lemma iterate_page_next:
  assumes "list options = Inr (items, response)"
    and "list_all (current c since) items" and "NextPage response \<noteq> 0"
  shows "iterate (Suc n) c list since fn options st =
     iterate n c list since fn (options\<lparr>Page := NextPage response\<rparr>)
       (visit fn items (request options st))"
proof -
  from assms(2) have "dropWhile (current c since) items = []"
    by (simp add: list_all_iff)
  then show ?thesis
    by (simp only: iterate_page [where list = list and options = options, OF assms(1)]
          list.case if_not_P [OF assms(3)])
qed

declare iterate.simps(2) [simp del]

section \<open>The loop, over a sequence of pages\<close>

text \<open>Pages of current items that each name a next page are all visited.\<close>

lemma iterate_leads:
  "leads list options pgs options' \<Longrightarrow> list_all (current c since) (concat pgs) \<Longrightarrow>
   iterate (length pgs + n) c list since fn options st =
   iterate n c list since fn options'
     (visit fn (concat pgs) (st\<lparr>requests := requests st @ cursors list options (length pgs)\<rparr>))"
proof (induction pgs arbitrary: options st)
  case Nil
  then show ?case by (simp add: visit_Nil)
next
  case (Cons pg pgs)
  from Cons.prems(1) obtain response where
    fetch: "list options = Inr (pg, response)" and nz: "NextPage response \<noteq> 0" and
    rest: "leads list (options\<lparr>Page := NextPage response\<rparr>) pgs options'"
    by (auto split: sum.splits prod.splits)
  from Cons.prems(2) have pg: "list_all (current c since) pg"
    and pgs: "list_all (current c since) (concat pgs)" by simp_all
  have "iterate (length (pg # pgs) + n) c list since fn options st =
        iterate (length pgs + n) c list since fn (options\<lparr>Page := NextPage response\<rparr>)
          (visit fn pg (request options st))"
    using iterate_page_next [where list = list and options = options, OF fetch pg nz]
    by simp
  also have "\<dots> = iterate n c list since fn options'
      (visit fn (concat pgs) ((visit fn pg (request options st))
         \<lparr>requests := requests (visit fn pg (request options st)) @
            cursors list (options\<lparr>Page := NextPage response\<rparr>) (length pgs)\<rparr>))"
    by (rule Cons.IH [OF rest pgs])
  also have "(visit fn (concat pgs) ((visit fn pg (request options st))
         \<lparr>requests := requests (visit fn pg (request options st)) @
            cursors list (options\<lparr>Page := NextPage response\<rparr>) (length pgs)\<rparr>)) =
      visit fn (concat (pg # pgs))
        (st\<lparr>requests := requests st @ cursors list options (length (pg # pgs))\<rparr>)"
    using fetch nz by (simp add: visit_def request_def)
  finally show ?case .
qed

text \<open>
  A served sequence of pages whose items all have a timestamp: the callback is invoked
  on the longest prefix of current items, and the pages after the one that ends this
  prefix are not asked for.
\<close>

lemma iterate_serves:
  "serves list options pages \<Longrightarrow> list_all (\<lambda>i. c i \<noteq> None) (concat pages) \<Longrightarrow>
   length pages \<le> n \<Longrightarrow>
   iterate n c list since fn options st =
     (Some (Returned None),
      visit fn (takeWhile (current c since) (concat pages))
        (st\<lparr>requests := requests st @
           cursors list options (length (fetched (\<lambda>i. \<not> current c since i) pages))\<rparr>))"
proof (induction pages arbitrary: n options st)
  case Nil
  then show ?case by simp
next
  case (Cons pg pgs)
  from Cons.prems(3) obtain m where n: "n = Suc m" and m: "length pgs \<le> m"
    by (cases n) auto
  from Cons.prems(1) obtain response where
    fetch: "list options = Inr (pg, response)" and
    link: "if pgs = [] then NextPage response = 0
           else NextPage response \<noteq> 0 \<and> serves list (options\<lparr>Page := NextPage response\<rparr>) pgs"
    by (auto split: sum.splits prod.splits)
  from Cons.prems(2) have dated_pg: "\<forall>i\<in>set pg. c i \<noteq> None"
    and dated_pgs: "list_all (\<lambda>i. c i \<noteq> None) (concat pgs)"
    by (simp_all add: list_all_iff)
  show ?case
  proof (cases "list_all (current c since) pg")
    case False
    from dropWhile_not_all [OF False] obtain x rest where
      dw: "dropWhile (current c since) pg = x # rest" and x: "x \<in> set pg" by blast
    from False have ex: "list_ex (\<lambda>i. \<not> current c since i) pg"
      by (simp add: list_all_iff list_ex_iff)
    from x dated_pg have "c x \<noteq> None" by blast
    with False show ?thesis
      unfolding n iterate_page_stop [where list = list and options = options, OF fetch dw]
      by (simp add: takeWhile_append_not_all visit_def request_def fetch ex)
  next
    case True
    then have no_ex: "\<not> list_ex (\<lambda>i. \<not> current c since i) pg"
      by (simp add: list_all_iff list_ex_iff)
    show ?thesis
    proof (cases "pgs = []")
      case True
      with link have z: "NextPage response = 0" by simp
      have tw: "takeWhile (current c since) pg = pg"
        using \<open>list_all (current c since) pg\<close> by (simp add: list_all_iff)
      from \<open>pgs = []\<close> show ?thesis
        unfolding n iterate_page_last [where list = list and options = options,
            OF fetch \<open>list_all (current c since) pg\<close> z]
        by (simp add: visit_def request_def fetch z tw no_ex)
    next
      case False
      with link have nz: "NextPage response \<noteq> 0"
        and rest: "serves list (options\<lparr>Page := NextPage response\<rparr>) pgs" by simp_all
      have "iterate n c list since fn options st =
            iterate m c list since fn (options\<lparr>Page := NextPage response\<rparr>)
              (visit fn pg (request options st))"
        unfolding n by (rule iterate_page_next [where list = list and options = options, OF fetch True nz])
      also note Cons.IH [OF rest dated_pgs m]
      finally show ?thesis
        using True fetch nz
        by (simp add: takeWhile_append_all visit_def request_def no_ex)
    qed
  qed
qed

lemma length_cursors: "length (cursors list options k) \<le> k"
proof (induction k arbitrary: options)
  case 0
  show ?case by simp
next
  case (Suc k)
  show ?case
  proof (cases "list options")
    case (Inl err)
    then show ?thesis by simp
  next
    case (Inr page)
    then show ?thesis using Suc.IH [of "options\<lparr>Page := NextPage (snd page)\<rparr>"]
      by (cases page) simp
  qed
qed

lemma length_cursors_serves:
  "serves list options pages \<Longrightarrow> length (cursors list options (length pages)) = length pages"
proof (induction pages arbitrary: options)
  case Nil
  then show ?case by simp
next
  case (Cons pg pgs)
  then show ?case
    by (cases "pgs = []") (auto split: sum.splits prod.splits)
qed

lemma fetched_none:
  "\<not> list_ex stop (concat pages) \<Longrightarrow> fetched stop pages = pages"
  by (induction pages) (auto simp add: list_ex_iff)

lemma serves_last:
  "serves list options pages \<Longrightarrow>
   \<exists>response. list (last (cursors list options (length pages))) = Inr (last pages, response) \<and>
     NextPage response = 0"
proof (induction pages arbitrary: options)
  case Nil
  then show ?case by simp
next
  case (Cons pg pgs)
  from Cons.prems obtain response where
    fetch: "list options = Inr (pg, response)" and
    link: "if pgs = [] then NextPage response = 0
           else NextPage response \<noteq> 0 \<and> serves list (options\<lparr>Page := NextPage response\<rparr>) pgs"
    by (auto split: sum.splits prod.splits)
  show ?case
  proof (cases "pgs = []")
    case True
    with fetch link show ?thesis by simp
  next
    case False
    with link have nz: "NextPage response \<noteq> 0"
      and rest: "serves list (options\<lparr>Page := NextPage response\<rparr>) pgs" by simp_all
    from False obtain q qs where pgs: "pgs = q # qs" by (cases pgs) auto
    from Cons.IH [OF rest] False fetch nz show ?thesis
      by (simp add: pgs)
  qed
qed

section \<open>The loop, for any list call\<close>

text \<open>
  After any number of iterations, what the loop has done is fixed by the list call, the
  cutoff and the first options alone: its outcome, the items the callback was invoked
  on, all of them current, and the calls made, which follow the chain of cursors.
\<close>

lemma iterate_shape:
  "\<exists>out d k. k \<le> n \<and> list_all (current c since) d \<and>
     (\<forall>(fn :: 'a \<Rightarrow> 's \<Rightarrow> 's) st. iterate n c list since fn options st =
        (out, visit fn d (st\<lparr>requests := requests st @ cursors list options k\<rparr>)))"
proof (induction n arbitrary: options)
  case 0
  have "0 \<le> (0::nat)" by simp
  moreover have "\<forall>(fn :: 'a \<Rightarrow> 's \<Rightarrow> 's) st. iterate 0 c list since fn options st =
        (None, visit fn [] (st\<lparr>requests := requests st @ cursors list options 0\<rparr>))"
    by (simp add: visit_def)
  moreover have "list_all (current c since) []" by simp
  ultimately show ?case by blast
next
  case (Suc n)
  show ?case
  proof (cases "list options")
    case (Inl err)
    then have "\<forall>(fn :: 'a \<Rightarrow> 's \<Rightarrow> 's) st. iterate (Suc n) c list since fn options st =
        (Some (Returned (Some err)),
         visit fn [] (st\<lparr>requests := requests st @ cursors list options (Suc 0)\<rparr>))"
      by (simp add: iterate_error visit_def request_def)
    moreover have "Suc 0 \<le> Suc n" by simp
    moreover have "list_all (current c since) []" by simp
    ultimately show ?thesis by blast
  next
    case (Inr page)
    obtain items response where page: "page = (items, response)" by (cases page)
    with Inr have fetch: "list options = Inr (items, response)" by simp
    have one: "Suc 0 \<le> Suc n" by simp
    show ?thesis
    proof (cases "dropWhile (current c since) items")
      case (Cons x rest)
      have "\<forall>(fn :: 'a \<Rightarrow> 's \<Rightarrow> 's) st. iterate (Suc n) c list since fn options st =
          (Some (if c x = None then Panicked else Returned None),
           visit fn (takeWhile (current c since) items)
             (st\<lparr>requests := requests st @ cursors list options (Suc 0)\<rparr>))"
        by (simp add: iterate_page_stop [where list = list and options = options, OF fetch Cons]
              request_def fetch)
      with one list_all_takeWhile [of "current c since" items] show ?thesis by blast
    next
      case Nil
      then have all: "list_all (current c since) items"
        by (simp add: list_all_iff)
      show ?thesis
      proof (cases "NextPage response = 0")
        case True
        have "\<forall>(fn :: 'a \<Rightarrow> 's \<Rightarrow> 's) st. iterate (Suc n) c list since fn options st =
            (Some (Returned None),
             visit fn items (st\<lparr>requests := requests st @ cursors list options (Suc 0)\<rparr>))"
          by (simp add: iterate_page_last [where list = list and options = options,
                OF fetch all True] request_def fetch True)
        with one all show ?thesis by blast
      next
        case False
        from Suc.IH [of "options\<lparr>Page := NextPage response\<rparr>"]
        obtain out d k where k: "k \<le> n" and d: "list_all (current c since) d" and
          run: "\<forall>(fn :: 'a \<Rightarrow> 's \<Rightarrow> 's) st.
            iterate n c list since fn (options\<lparr>Page := NextPage response\<rparr>) st =
            (out, visit fn d
               (st\<lparr>requests := requests st @
                  cursors list (options\<lparr>Page := NextPage response\<rparr>) k\<rparr>))"
          by blast
        have
          "\<forall>(fn :: 'a \<Rightarrow> 's \<Rightarrow> 's) st. iterate (Suc n) c list since fn options st =
            (out, visit fn (items @ d)
               (st\<lparr>requests := requests st @ cursors list options (Suc k)\<rparr>))"
          by (simp add: iterate_page_next [where list = list and options = options,
                OF fetch all False] run visit_def request_def fetch False)
        moreover from k have "Suc k \<le> Suc n" by simp
        moreover from all d have "list_all (current c since) (items @ d)" by simp
        ultimately show ?thesis by blast
      qed
    qed
  qed
qed

text \<open>A loop that has ended is not changed by allowing it more iterations.\<close>

lemma iterate_more:
  "iterate n c list since fn options st = (Some out, st') \<Longrightarrow>
   iterate (n + m) c list since fn options st = (Some out, st')"
proof (induction n arbitrary: options st)
  case 0
  then show ?case by simp
next
  case (Suc n)
  show ?case
  proof (cases "list options")
    case (Inl err)
    with Suc.prems show ?thesis by (simp add: iterate_error)
  next
    case (Inr page)
    obtain items response where "page = (items, response)" by (cases page)
    with Inr have fetch: "list options = Inr (items, response)" by simp
    show ?thesis
    proof (cases "dropWhile (current c since) items")
      case (Cons x rest)
      from Suc.prems show ?thesis
        by (simp add: iterate_page_stop [where list = list and options = options,
              OF fetch Cons])
    next
      case Nil
      then have all: "list_all (current c since) items" by (simp add: list_all_iff)
      show ?thesis
      proof (cases "NextPage response = 0")
        case True
        from Suc.prems show ?thesis
          by (simp add: iterate_page_last [where list = list and options = options,
                OF fetch all True])
      next
        case False
        from Suc.prems have
          "iterate n c list since fn (options\<lparr>Page := NextPage response\<rparr>)
             (visit fn items (request options st)) = (Some out, st')"
          by (simp add: iterate_page_next [where list = list and options = options,
                OF fetch all False])
        from Suc.IH [OF this] show ?thesis
          by (simp add: iterate_page_next [where list = list and options = options,
                OF fetch all False])
      qed
    qed
  qed
qed

text \<open>A chain that ends within \<open>k\<close> calls ends the loop within \<open>k\<close> iterations.\<close>

lemma iterate_ends:
  "ends_within c list since options k \<Longrightarrow>
   \<exists>out st'. iterate k c list since fn options st = (Some out, st')"
proof (induction k arbitrary: options st)
  case 0
  then show ?case by simp
next
  case (Suc k)
  show ?case
  proof (cases "list options")
    case (Inl err)
    then show ?thesis by (simp add: iterate_error)
  next
    case (Inr page)
    obtain items response where "page = (items, response)" by (cases page)
    with Inr have fetch: "list options = Inr (items, response)" by simp
    show ?thesis
    proof (cases "dropWhile (current c since) items")
      case (Cons x rest)
      show ?thesis
        by (simp add: iterate_page_stop [where list = list and options = options,
              OF fetch Cons])
    next
      case Nil
      then have all: "list_all (current c since) items" by (simp add: list_all_iff)
      then have no_ex: "\<not> list_ex (\<lambda>i. \<not> current c since i) items"
        by (simp add: list_all_iff list_ex_iff)
      show ?thesis
      proof (cases "NextPage response = 0")
        case True
        show ?thesis
          by (simp add: iterate_page_last [where list = list and options = options,
                OF fetch all True])
      next
        case False
        with no_ex fetch Suc.prems have
          "ends_within c list since (options\<lparr>Page := NextPage response\<rparr>) k" by simp
        from Suc.IH [OF this] show ?thesis
          by (simp add: iterate_page_next [where list = list and options = options,
                OF fetch all False])
      qed
    qed
  qed
qed

text \<open>A chain that serves finitely many pages ends within their number.\<close>

lemma serves_ends_within:
  "serves list options pages \<Longrightarrow> ends_within createdAt list since options (length pages)"
proof (induction pages arbitrary: options)
  case Nil
  then show ?case by simp
next
  case (Cons pg pgs)
  then show ?case
    by (cases "pgs = []") (auto split: sum.splits prod.splits)
qed

text \<open>The definitions a scenario is evaluated with.\<close>

lemmas scenario_defs =
  iterateIssues_def iteratePullRequests_def IterateIssues_def IteratePullRequests_def
  issueOptions_def pullRequestOptions_def GitHubMaxItemsPerPage_def
  issue_def pull_def widgets_def acme_def hollow_def paired_def nothing_def
  issueRow_def pullRequestRow_def

section \<open>The claims\<close>

text \<open>
  The theorems are about \<open>iterate\<close>, for every item type, timestamp selector and list
  call, and so about each of the four traversal functions, which are \<open>iterate\<close> on
  their own list call. The witnesses evaluate them on the scenarios.
\<close>

text \<open>
  Claim C1. For every sequence of pages whose items are in strictly descending
  creation-date order, the traversal invokes the callback on the items in that order
  and stops at the first item whose creation timestamp is strictly before the cutoff:
  the callback is invoked on exactly the items before that one (\<open>takeWhile\<close>), so
  neither on it, nor on a later item of its page, nor on an item of a later page; no
  page after the one that holds it is asked for; and the traversal returns nil. Here
  the loop may run for as many iterations as there are pages, or more.
\<close>

theorem cutoff_stops_traversal:
  assumes "serves list options pages"
    and "descending createdAt (concat pages)"
    and "length pages \<le> n"
  shows "iterate n createdAt list since fn options st =
     (Some (Returned None),
      st\<lparr>sink := fold fn (takeWhile (\<lambda>i. \<not> older createdAt since i) (concat pages)) (sink st),
         calls := calls st @ takeWhile (\<lambda>i. \<not> older createdAt since i) (concat pages),
         requests := requests st @
           cursors list options (length (fetched (older createdAt since) pages))\<rparr>)"
proof -
  from assms(2) have dated: "list_all (\<lambda>i. createdAt i \<noteq> None) (concat pages)"
    by (simp add: descending_def)
  then have same: "\<forall>i\<in>set (concat pages).
      (\<not> current createdAt since i) = older createdAt since i"
    by (simp add: list_all_iff current_iff_not_older)
  then have tw: "takeWhile (current createdAt since) (concat pages) =
      takeWhile (\<lambda>i. \<not> older createdAt since i) (concat pages)"
    by (intro takeWhile_cong) auto
  from same have fe: "fetched (\<lambda>i. \<not> current createdAt since i) pages =
      fetched (older createdAt since) pages"
    by (rule fetched_cong)
  show ?thesis
    unfolding iterate_serves [OF assms(1) dated assms(3)] tw fe
    by (simp add: visit_def)
qed

theorem cutoff_stops_traversal_witness:
  "serves (Issues_ListByRepo acme ''acme'' ''widgets'') issueOptions
     [[issue 5 20240201, issue 4 20240115], [issue 3 20231220, issue 2 20231101],
      [issue 1 20231001]] \<and>
   descending Issue.CreatedAt
     [issue 5 20240201, issue 4 20240115, issue 3 20231220, issue 2 20231101,
      issue 1 20231001] \<and>
   iterateIssues 3 widgets acme 20240101 issueRow nothing =
     (Some (Returned None),
      \<lparr>sink = [Some 5, Some 4], calls = [issue 5 20240201, issue 4 20240115],
       requests = [issueOptions, issueOptions\<lparr>Page := 2\<rparr>]\<rparr>)"
proof -
  let ?pages = "[[issue 5 20240201, issue 4 20240115], [issue 3 20231220, issue 2 20231101],
      [issue 1 20231001]]"
  have served: "serves (Issues_ListByRepo acme ''acme'' ''widgets'') issueOptions ?pages"
    by (simp add: scenario_defs)
  have ordered: "descending Issue.CreatedAt (concat ?pages)"
    by (simp add: descending_def issue_def Before_def)
  have enough: "length ?pages \<le> 3" by simp
  show ?thesis
    using served ordered
      cutoff_stops_traversal [OF served ordered enough, of 20240101 issueRow nothing]
    by (simp add: scenario_defs older_def Before_def)
qed

text \<open>
  Claim C2. If a list call returns an error, on whichever iteration, the traversal
  returns that error at once. The iteration is reached when the pages before it each
  name a next page and hold current items only; then the callback has been invoked on
  all their items, and these invocations stand; the failing call is the last call made
  and is made once; and the callback is invoked on nothing else.
\<close>

theorem fetch_error_aborts:
  assumes "leads list options pages options'"
    and "list options' = Inl err"
    and "\<forall>i\<in>set (concat pages). current createdAt since i"
    and "length pages < n"
  shows "iterate n createdAt list since fn options st =
     (Some (Returned (Some err)),
      st\<lparr>sink := fold fn (concat pages) (sink st),
         calls := calls st @ concat pages,
         requests := requests st @ cursors list options (length pages) @ [options']\<rparr>)"
proof -
  from assms(4) obtain m where n: "n = length pages + Suc m"
    by (metis less_iff_Suc_add add_Suc_right)
  from assms(3) have all: "list_all (current createdAt since) (concat pages)"
    by (simp add: list_all_iff)
  show ?thesis
    unfolding n iterate_leads [OF assms(1) all]
    by (simp add: iterate_error [where list = list, OF assms(2)] visit_def request_def)
qed

theorem fetch_error_aborts_witness:
  "leads (PullRequests_List acme ''acme'' ''widgets'') pullRequestOptions
     [[pull 7 20240301, pull 6 20240101]] (pullRequestOptions\<lparr>Page := 2\<rparr>) \<and>
   PullRequests_List acme ''acme'' ''widgets'' (pullRequestOptions\<lparr>Page := 2\<rparr>) =
     Inl (Error ''connection reset'') \<and>
   iteratePullRequests 2 widgets acme 20240101 pullRequestRow nothing =
     (Some (Returned (Some (Error ''connection reset''))),
      \<lparr>sink = [Some 7, Some 6], calls = [pull 7 20240301, pull 6 20240101],
       requests = [pullRequestOptions, pullRequestOptions\<lparr>Page := 2\<rparr>]\<rparr>)"
proof -
  let ?list = "PullRequests_List acme ''acme'' ''widgets''"
  let ?pages = "[[pull 7 20240301, pull 6 20240101]]"
  have first: "leads ?list pullRequestOptions ?pages (pullRequestOptions\<lparr>Page := 2\<rparr>)"
    by (simp add: scenario_defs)
  have failure: "?list (pullRequestOptions\<lparr>Page := 2\<rparr>) = Inl (Error ''connection reset'')"
    by (simp add: scenario_defs)
  have passed: "\<forall>i\<in>set (concat ?pages). current PullRequest.CreatedAt 20240101 i"
    by (simp add: current_def pull_def Before_def)
  have enough: "length ?pages < 2" by simp
  show ?thesis
    using first failure
      fetch_error_aborts [where list = ?list, OF first failure passed enough,
        of pullRequestRow nothing]
    by (simp add: scenario_defs)
qed

text \<open>
  Claim C3. For every finite page sequence and every cutoff strictly earlier than the
  creation date of every item, the traversal asks for every page (one call per page),
  invokes the callback exactly once per item, in the order of the items across the
  pages, and returns nil.
\<close>

theorem early_cutoff_visits_everything:
  assumes "serves list options pages"
    and "\<forall>i\<in>set (concat pages). \<exists>t. createdAt i = Some t \<and> Before since t"
    and "length pages \<le> n"
  shows "iterate n createdAt list since fn options st =
     (Some (Returned None),
      st\<lparr>sink := fold fn (concat pages) (sink st),
         calls := calls st @ concat pages,
         requests := requests st @ cursors list options (length pages)\<rparr>) \<and>
     length (cursors list options (length pages)) = length pages"
proof -
  from assms(2) have dated: "list_all (\<lambda>i. createdAt i \<noteq> None) (concat pages)"
    by (auto simp add: list_all_iff)
  from assms(2) have all: "\<forall>i\<in>set (concat pages). current createdAt since i"
    by (blast intro: newer_current)
  then have tw: "takeWhile (current createdAt since) (concat pages) = concat pages"
    by (simp add: takeWhile_eq_all_conv)
  from all have "\<not> list_ex (\<lambda>i. \<not> current createdAt since i) (concat pages)"
    by (simp add: list_ex_iff)
  then have fe: "fetched (\<lambda>i. \<not> current createdAt since i) pages = pages"
    by (rule fetched_none)
  show ?thesis
    unfolding iterate_serves [OF assms(1) dated assms(3)] tw fe
    by (simp add: visit_def length_cursors_serves [OF assms(1)])
qed

theorem early_cutoff_visits_everything_witness:
  "serves (Issues_ListByRepo acme ''acme'' ''widgets'') issueOptions
     [[issue 5 20240201, issue 4 20240115], [issue 3 20231220, issue 2 20231101],
      [issue 1 20231001]] \<and>
   IterateIssues 3 widgets acme 20230101 issueRow nothing =
     (Some (Returned None),
      \<lparr>sink = [Some 5, Some 4, Some 3, Some 2, Some 1],
       calls = [issue 5 20240201, issue 4 20240115, issue 3 20231220, issue 2 20231101,
                issue 1 20231001],
       requests = [issueOptions, issueOptions\<lparr>Page := 2\<rparr>, issueOptions\<lparr>Page := 3\<rparr>]\<rparr>)"
proof -
  let ?list = "Issues_ListByRepo acme ''acme'' ''widgets''"
  let ?pages = "[[issue 5 20240201, issue 4 20240115], [issue 3 20231220, issue 2 20231101],
      [issue 1 20231001]]"
  have served: "serves ?list issueOptions ?pages"
    by (simp add: scenario_defs)
  have newer: "\<forall>i\<in>set (concat ?pages). \<exists>t. Issue.CreatedAt i = Some t \<and> Before 20230101 t"
    by (simp add: issue_def Before_def)
  have enough: "length ?pages \<le> 3" by simp
  show ?thesis
    using served
      early_cutoff_visits_everything [where list = ?list, OF served newer enough,
        of issueRow nothing]
    by (simp add: scenario_defs)
qed

text \<open>
  Claim C4. For every page sequence all of whose items have a creation timestamp
  strictly before the cutoff, the traversal returns nil and the callback is not
  invoked: the log of its invocations and the state it works on are as before.
\<close>

theorem late_cutoff_visits_nothing:
  assumes "serves list options pages"
    and "\<forall>i\<in>set (concat pages). \<exists>t. createdAt i = Some t \<and> Before t since"
    and "length pages \<le> n"
  shows "fst (iterate n createdAt list since fn options st) = Some (Returned None) \<and>
     calls (snd (iterate n createdAt list since fn options st)) = calls st \<and>
     sink (snd (iterate n createdAt list since fn options st)) = sink st"
proof -
  from assms(2) have dated: "list_all (\<lambda>i. createdAt i \<noteq> None) (concat pages)"
    by (auto simp add: list_all_iff)
  from assms(2) have "\<forall>i\<in>set (concat pages). \<not> current createdAt since i"
    by (blast dest: older_not_current)
  then have tw: "takeWhile (current createdAt since) (concat pages) = []"
    by (rule takeWhile_none)
  show ?thesis
    unfolding iterate_serves [OF assms(1) dated assms(3)] tw
    by (simp add: visit_def)
qed

theorem late_cutoff_visits_nothing_witness:
  "serves (Issues_ListByRepo acme ''acme'' ''widgets'') issueOptions
     [[issue 5 20240201, issue 4 20240115], [issue 3 20231220, issue 2 20231101],
      [issue 1 20231001]] \<and>
   fst (iterateIssues 3 widgets acme 20250101 issueRow nothing) = Some (Returned None) \<and>
   calls (snd (iterateIssues 3 widgets acme 20250101 issueRow nothing)) = [] \<and>
   sink (snd (iterateIssues 3 widgets acme 20250101 issueRow nothing)) = []"
proof -
  let ?list = "Issues_ListByRepo acme ''acme'' ''widgets''"
  let ?pages = "[[issue 5 20240201, issue 4 20240115], [issue 3 20231220, issue 2 20231101],
      [issue 1 20231001]]"
  have served: "serves ?list issueOptions ?pages"
    by (simp add: scenario_defs)
  have before: "\<forall>i\<in>set (concat ?pages). \<exists>t. Issue.CreatedAt i = Some t \<and> Before t 20250101"
    by (simp add: issue_def Before_def)
  have enough: "length ?pages \<le> 3" by simp
  show ?thesis
    using served
      late_cutoff_visits_nothing [where list = ?list, OF served before enough,
        of issueRow nothing]
    by (simp add: scenario_defs)
qed

text \<open>
  Claim C5, as stated, fails on the code: the loop ends on \<^verbatim>\<open>NextPage == 0\<close>, not
  on an empty page. Here the first page of issues is empty and names page 2; the
  traversal asks for page 2 as well and invokes the callback on the issue it holds.
\<close>

theorem empty_first_page_counterexample:
  "Issues_ListByRepo hollow (Organization widgets) (Repository widgets) issueOptions =
     Inr ([], \<lparr>NextPage = 2\<rparr>) \<and>
   iterateIssues 2 widgets hollow 20240101 issueRow nothing =
     (Some (Returned None),
      \<lparr>sink = [Some 1], calls = [issue 1 20240201],
       requests = [issueOptions, issueOptions\<lparr>Page := 2\<rparr>]\<rparr>)"
  by (simp add: scenario_defs eval_nat_numeral iterate.simps(2) request_def invoke_def
        Before_def)

text \<open>
  Claim C5, amended. If the first page is empty and its response names no next page,
  the traversal returns nil at once: the callback is not invoked, and the call for the
  first page is the only one made.
\<close>

theorem empty_last_page_ends_traversal:
  assumes "list options = Inr ([], response)"
    and "NextPage response = 0"
  shows "iterate (Suc n) createdAt list since fn options st =
     (Some (Returned None), st\<lparr>requests := requests st @ [options]\<rparr>)"
proof -
  have "list_all (current createdAt since) []" by simp
  from iterate_page_last [where list = list and options = options, OF assms(1) this assms(2)]
  show ?thesis by (simp only: visit_Nil request_def)
qed

theorem empty_last_page_ends_traversal_witness:
  "PullRequests_List hollow (Organization widgets) (Repository widgets) pullRequestOptions =
     Inr ([], \<lparr>NextPage = 0\<rparr>) \<and>
   NextPage \<lparr>NextPage = 0\<rparr> = 0 \<and>
   iteratePullRequests (Suc 4) widgets hollow 20240101 pullRequestRow nothing =
     (Some (Returned None),
      \<lparr>sink = [], calls = [], requests = [pullRequestOptions]\<rparr>)"
proof -
  let ?list = "PullRequests_List hollow (Organization widgets) (Repository widgets)"
  have empty: "?list pullRequestOptions = Inr ([], \<lparr>NextPage = 0\<rparr>)"
    by (simp add: scenario_defs)
  have none: "NextPage \<lparr>NextPage = 0\<rparr> = 0" by simp
  show ?thesis
    using empty
      empty_last_page_ends_traversal [where list = ?list, OF empty none,
        of 4 PullRequest.CreatedAt 20240101 pullRequestRow nothing]
    by (simp add: iteratePullRequests_def nothing_def)
qed

text \<open>
  Claim C6. The cutoff is an inclusive bound: when the traversal comes to an item
  whose creation timestamp equals the cutoff, the items before it not being older, it
  invokes the callback on that item and continues with the items after it, up to the
  first one that is older, that is, created strictly before the cutoff.
\<close>

theorem cutoff_is_inclusive:
  assumes "serves list options pages"
    and "\<forall>j\<in>set (concat pages). createdAt j \<noteq> None"
    and "concat pages = xs @ i # ys"
    and "\<forall>x\<in>set xs. \<not> older createdAt since x"
    and "createdAt i = Some since"
    and "length pages \<le> n"
  shows "fst (iterate n createdAt list since fn options st) = Some (Returned None) \<and>
     calls (snd (iterate n createdAt list since fn options st)) =
       calls st @ xs @ i # takeWhile (\<lambda>j. \<not> older createdAt since j) ys \<and>
     sink (snd (iterate n createdAt list since fn options st)) =
       fold fn (xs @ i # takeWhile (\<lambda>j. \<not> older createdAt since j) ys) (sink st)"
proof -
  from assms(2) have dated: "list_all (\<lambda>j. createdAt j \<noteq> None) (concat pages)"
    by (simp add: list_all_iff)
  from assms(2) have same: "\<forall>j\<in>set (concat pages).
      current createdAt since j = (\<not> older createdAt since j)"
    by (simp add: current_iff_not_older)
  from assms(5) have i: "current createdAt since i"
    by (simp add: current_def Before_def)
  from same assms(3,4) have xs: "list_all (current createdAt since) xs"
    by (simp add: list_all_iff)
  from same assms(3) have "\<forall>j\<in>set ys.
      current createdAt since j = (\<not> older createdAt since j)" by simp
  then have ys: "takeWhile (current createdAt since) ys =
      takeWhile (\<lambda>j. \<not> older createdAt since j) ys"
    by (intro takeWhile_cong) auto
  have tw: "takeWhile (current createdAt since) (concat pages) =
      xs @ i # takeWhile (\<lambda>j. \<not> older createdAt since j) ys"
    unfolding assms(3) by (simp add: takeWhile_append_all [OF xs] i ys)
  show ?thesis
    unfolding iterate_serves [OF assms(1) dated assms(6)] tw
    by (simp add: visit_def)
qed

theorem cutoff_is_inclusive_witness:
  "serves (PullRequests_List paired ''acme'' ''widgets'') pullRequestOptions
     [[pull 3 20240301, pull 2 20231201, pull 1 20240201]] \<and>
   PullRequest.CreatedAt (pull 2 20231201) = Some 20231201 \<and>
   fst (iteratePullRequests 1 widgets paired 20231201 pullRequestRow nothing) =
     Some (Returned None) \<and>
   calls (snd (iteratePullRequests 1 widgets paired 20231201 pullRequestRow nothing)) =
     [pull 3 20240301, pull 2 20231201, pull 1 20240201] \<and>
   sink (snd (iteratePullRequests 1 widgets paired 20231201 pullRequestRow nothing)) =
     [Some 3, Some 2, Some 1]"
proof -
  let ?list = "PullRequests_List paired ''acme'' ''widgets''"
  let ?pages = "[[pull 3 20240301, pull 2 20231201, pull 1 20240201]]"
  have served: "serves ?list pullRequestOptions ?pages"
    by (simp add: scenario_defs)
  have dated: "\<forall>j\<in>set (concat ?pages). PullRequest.CreatedAt j \<noteq> None"
    by (simp add: pull_def)
  have split: "concat ?pages = [pull 3 20240301] @ pull 2 20231201 # [pull 1 20240201]"
    by simp
  have before: "\<forall>x\<in>set [pull 3 20240301]. \<not> older PullRequest.CreatedAt 20231201 x"
    by (simp add: older_def pull_def Before_def)
  have equal: "PullRequest.CreatedAt (pull 2 20231201) = Some 20231201"
    by (simp add: pull_def)
  have enough: "length ?pages \<le> 1" by simp
  show ?thesis
    using served equal
      cutoff_is_inclusive [where list = ?list, OF served dated split before equal enough,
        of pullRequestRow nothing]
    by (simp add: scenario_defs older_def Before_def)
qed

text \<open>
  Claim C7. For a collection of full pages (its size is a multiple of the page size),
  the chain of cursors has one call per page, and the response to the last of them names
  no next page. The traversal ends having made the first \<open>j\<close> of these calls and no
  other call, so none after the last of them; when no item stops the traversal, it has
  made all of them and returns nil.
\<close>

theorem full_pages_no_extra_fetch:
  assumes "serves list options pages"
    and "\<forall>pg\<in>set pages. int (length pg) = PerPage options"
    and "length pages \<le> n"
  shows "(\<exists>out j. j \<le> length pages \<and>
        fst (iterate n createdAt list since fn options st) = Some out \<and>
        requests (snd (iterate n createdAt list since fn options st)) =
          requests st @ cursors list options j \<and>
        ((\<forall>i\<in>set (concat pages). current createdAt since i) \<longrightarrow>
           out = Returned None \<and> j = length pages)) \<and>
     length (cursors list options (length pages)) = length pages \<and>
     (\<exists>response.
        list (last (cursors list options (length pages))) = Inr (last pages, response) \<and>
        NextPage response = 0)"
proof -
  let ?run = "iterate n createdAt list since fn options st"
  have made: "\<exists>out j. j \<le> length pages \<and> fst ?run = Some out \<and>
      requests (snd ?run) = requests st @ cursors list options j \<and>
      ((\<forall>i\<in>set (concat pages). current createdAt since i) \<longrightarrow>
         out = Returned None \<and> j = length pages)"
  proof (cases "\<forall>i\<in>set (concat pages). current createdAt since i")
    case True
    then have "\<forall>i\<in>set (concat pages). createdAt i \<noteq> None"
      by (blast dest: current_dated)
    then have dated: "list_all (\<lambda>i. createdAt i \<noteq> None) (concat pages)"
      by (simp add: list_all_iff)
    from True have "\<not> list_ex (\<lambda>i. \<not> current createdAt since i) (concat pages)"
      by (simp add: list_ex_iff)
    then have fe: "fetched (\<lambda>i. \<not> current createdAt since i) pages = pages"
      by (rule fetched_none)
    have "fst ?run = Some (Returned None) \<and>
        requests (snd ?run) = requests st @ cursors list options (length pages)"
      unfolding iterate_serves [OF assms(1) dated assms(3)] fe
      by (simp add: visit_def)
    then show ?thesis by blast
  next
    case False
    let ?k = "length pages"
    from serves_ends_within [OF assms(1)]
    have "ends_within createdAt list since options ?k" .
    from iterate_ends [OF this, of fn st]
    obtain out st' where run: "iterate ?k createdAt list since fn options st = (Some out, st')"
      by blast
    from iterate_shape [of ?k createdAt since list options]
    obtain out' d j where j: "j \<le> ?k" and
      shape: "\<forall>(fn :: 'a \<Rightarrow> 'b \<Rightarrow> 'b) st.
        iterate ?k createdAt list since fn options st =
          (out', visit fn d (st\<lparr>requests := requests st @ cursors list options j\<rparr>))"
      by blast
    from run shape [rule_format, of fn st] have
      requests: "requests st' = requests st @ cursors list options j"
      by (auto simp add: visit_def)
    from assms(3) have "n = ?k + (n - ?k)" by simp
    with iterate_more [OF run, of "n - ?k"] have "?run = (Some out, st')" by simp
    with requests j False show ?thesis by auto
  qed
  from made length_cursors_serves [OF assms(1)] serves_last [OF assms(1)]
  show ?thesis by blast
qed

theorem full_pages_no_extra_fetch_witness:
  "serves (Issues_ListByRepo paired ''acme'' ''widgets'') (issueOptions\<lparr>PerPage := 2\<rparr>)
     [[issue 4 20240201, issue 3 20240115], [issue 2 20231220, issue 1 20231101]] \<and>
   fst (iterate 2 Issue.CreatedAt (Issues_ListByRepo paired ''acme'' ''widgets'') 20230101
          issueRow (issueOptions\<lparr>PerPage := 2\<rparr>) nothing) = Some (Returned None) \<and>
   requests (snd (iterate 2 Issue.CreatedAt (Issues_ListByRepo paired ''acme'' ''widgets'')
          20230101 issueRow (issueOptions\<lparr>PerPage := 2\<rparr>) nothing)) =
     [issueOptions\<lparr>PerPage := 2\<rparr>, issueOptions\<lparr>PerPage := 2, Page := 2\<rparr>] \<and>
   Issues_ListByRepo paired ''acme'' ''widgets'' (issueOptions\<lparr>PerPage := 2, Page := 2\<rparr>) =
     Inr ([issue 2 20231220, issue 1 20231101], \<lparr>NextPage = 0\<rparr>)"
proof -
  let ?list = "Issues_ListByRepo paired ''acme'' ''widgets''"
  let ?options = "issueOptions\<lparr>PerPage := 2\<rparr>"
  let ?pages = "[[issue 4 20240201, issue 3 20240115], [issue 2 20231220, issue 1 20231101]]"
  have served: "serves ?list ?options ?pages"
    by (simp add: scenario_defs)
  have full: "\<forall>pg\<in>set ?pages. int (length pg) = PerPage ?options"
    by simp
  have newer: "\<forall>i\<in>set (concat ?pages). current Issue.CreatedAt 20230101 i"
    by (simp add: current_def issue_def Before_def)
  have enough: "length ?pages \<le> 2" by simp
  let ?run = "iterate 2 Issue.CreatedAt ?list 20230101 issueRow ?options nothing"
  from full_pages_no_extra_fetch [where list = ?list, OF served full enough,
        of Issue.CreatedAt 20230101 issueRow nothing]
  obtain out j where
    outcome: "fst ?run = Some out" and
    made: "requests (snd ?run) =
      requests (nothing :: (Issue, int option list) effects) @ cursors ?list ?options j" and
    every: "(\<forall>i\<in>set (concat ?pages). current Issue.CreatedAt 20230101 i) \<longrightarrow>
      out = Returned None \<and> j = length ?pages"
    by blast
  from every newer have "out = Returned None \<and> j = length ?pages" by (rule mp)
  with outcome made served show ?thesis
    by (simp add: scenario_defs)
qed

text \<open>
  Claim C8. Two runs of the traversal on the same list call, cutoff and first options
  do the same: whatever effects each starts from and whatever callback each is given,
  if both have returned, or both have run for the same number of iterations, they end
  the same way and have invoked the callback on the same items in the same order, after
  the same list calls.
\<close>

theorem traversal_is_deterministic:
  fixes fn fn' :: "'a \<Rightarrow> 's \<Rightarrow> 's"
  assumes "n = m \<or>
      (fst (iterate n createdAt list since fn options st) \<noteq> None \<and>
       fst (iterate m createdAt list since fn' options su) \<noteq> None)"
  shows "fst (iterate m createdAt list since fn' options su) =
         fst (iterate n createdAt list since fn options st) \<and>
     (\<exists>d r.
        calls (snd (iterate n createdAt list since fn options st)) = calls st @ d \<and>
        calls (snd (iterate m createdAt list since fn' options su)) = calls su @ d \<and>
        sink (snd (iterate n createdAt list since fn options st)) = fold fn d (sink st) \<and>
        sink (snd (iterate m createdAt list since fn' options su)) = fold fn' d (sink su) \<and>
        requests (snd (iterate n createdAt list since fn options st)) = requests st @ r \<and>
        requests (snd (iterate m createdAt list since fn' options su)) = requests su @ r)"
proof -
  from iterate_shape [of n createdAt since list options]
  obtain out d k where run: "\<forall>(fn :: 'a \<Rightarrow> 's \<Rightarrow> 's) st.
      iterate n createdAt list since fn options st =
        (out, visit fn d (st\<lparr>requests := requests st @ cursors list options k\<rparr>))"
    by blast
  from iterate_shape [of m createdAt since list options]
  obtain out' d' k' where run': "\<forall>(fn :: 'a \<Rightarrow> 's \<Rightarrow> 's) st.
      iterate m createdAt list since fn options st =
        (out', visit fn d' (st\<lparr>requests := requests st @ cursors list options k'\<rparr>))"
    by blast
  have same: "out' = out \<and> d' = d \<and> cursors list options k' = cursors list options k"
  proof (cases "n = m")
    case True
    from run [rule_format, of fn st] run' [rule_format, of fn st] True
    have "out = out'" and
      "visit fn d (st\<lparr>requests := requests st @ cursors list options k\<rparr>) =
       visit fn d' (st\<lparr>requests := requests st @ cursors list options k'\<rparr>)"
      by simp_all
    with visit_inject [of fn d st "cursors list options k" d' "cursors list options k'"]
    show ?thesis by simp
  next
    case False
    with assms run run' obtain o1 o2 where out: "out = Some o1" and out': "out' = Some o2"
      by auto
    from run [rule_format, of fn st] out have
      "iterate (n + m) createdAt list since fn options st =
         (Some o1, visit fn d (st\<lparr>requests := requests st @ cursors list options k\<rparr>))"
      by (simp add: iterate_more)
    moreover from run' [rule_format, of fn st] out' have
      "iterate (m + n) createdAt list since fn options st =
         (Some o2, visit fn d' (st\<lparr>requests := requests st @ cursors list options k'\<rparr>))"
      by (simp add: iterate_more)
    ultimately have "o1 = o2" and
      "visit fn d (st\<lparr>requests := requests st @ cursors list options k\<rparr>) =
       visit fn d' (st\<lparr>requests := requests st @ cursors list options k'\<rparr>)"
      by (simp_all add: add.commute)
    with visit_inject [of fn d st "cursors list options k" d' "cursors list options k'"]
      out out'
    show ?thesis by simp
  qed
  show ?thesis
    using same run [rule_format, of fn st] run' [rule_format, of fn' su]
    by (simp add: visit_def)
qed

theorem traversal_is_deterministic_witness:
  "fst (iterateIssues 3 widgets acme 20240101 issueRow nothing) \<noteq> None \<and>
   fst (iterateIssues 5 widgets acme 20240101 issueRow
          (snd (iterateIssues 3 widgets acme 20240101 issueRow nothing))) \<noteq> None \<and>
   fst (iterateIssues 5 widgets acme 20240101 issueRow
          (snd (iterateIssues 3 widgets acme 20240101 issueRow nothing))) =
   fst (iterateIssues 3 widgets acme 20240101 issueRow nothing) \<and>
   (\<exists>d r.
      calls (snd (iterateIssues 3 widgets acme 20240101 issueRow nothing)) = [] @ d \<and>
      calls (snd (iterateIssues 5 widgets acme 20240101 issueRow
          (snd (iterateIssues 3 widgets acme 20240101 issueRow nothing)))) = (d @ d) \<and>
      requests (snd (iterateIssues 3 widgets acme 20240101 issueRow nothing)) = [] @ r \<and>
      requests (snd (iterateIssues 5 widgets acme 20240101 issueRow
          (snd (iterateIssues 3 widgets acme 20240101 issueRow nothing)))) = (r @ r))"
proof -
  let ?list = "Issues_ListByRepo acme (Organization widgets) (Repository widgets)"
  let ?run = "iterate 3 Issue.CreatedAt ?list 20240101 issueRow issueOptions nothing"
  let ?again = "iterate 5 Issue.CreatedAt ?list 20240101 issueRow issueOptions (snd ?run)"
  have first: "?run =
     (Some (Returned None),
      \<lparr>sink = [Some 5, Some 4], calls = [issue 5 20240201, issue 4 20240115],
       requests = [issueOptions, issueOptions\<lparr>Page := 2\<rparr>]\<rparr>)"
    by (simp add: scenario_defs eval_nat_numeral iterate.simps(2) request_def invoke_def
          Before_def)
  have second: "fst ?again \<noteq> None"
    unfolding first
    by (simp add: scenario_defs eval_nat_numeral iterate.simps(2) request_def invoke_def
          Before_def)
  from first have returned: "fst ?run \<noteq> None" by simp
  from returned second have both: "3 = (5::nat) \<or> (fst ?run \<noteq> None \<and> fst ?again \<noteq> None)"
    by simp
  from traversal_is_deterministic [OF both]
  obtain d r where
    "fst ?again = fst ?run" and
    "calls (snd ?run) = calls nothing @ d" and
    "calls (snd ?again) = calls (snd ?run) @ d" and
    "requests (snd ?run) = requests (nothing :: (Issue, int option list) effects) @ r" and
    "requests (snd ?again) = requests (snd ?run) @ r"
    by blast
  with returned second show ?thesis
    unfolding iterateIssues_def by (simp add: nothing_def)
qed

text \<open>
  Claim C9. For every list call, whatever the order of its items, and after any number
  of iterations, the callback has not been invoked on an item whose creation timestamp
  is strictly before the cutoff: the invocations made are those on a list \<open>d\<close>
  that holds no such item.
\<close>

theorem callback_never_sees_older_item:
  "\<exists>d. calls (snd (iterate n createdAt list since fn options st)) = calls st @ d \<and>
        sink (snd (iterate n createdAt list since fn options st)) = fold fn d (sink st) \<and>
        (\<forall>i\<in>set d. \<not> older createdAt since i)"
proof -
  from iterate_shape [of n createdAt since list options]
  obtain out d k where d: "list_all (current createdAt since) d" and
    run: "\<forall>(fn :: 'a \<Rightarrow> 'b \<Rightarrow> 'b) st.
      iterate n createdAt list since fn options st =
        (out, visit fn d (st\<lparr>requests := requests st @ cursors list options k\<rparr>))"
    by blast
  from d have "\<forall>i\<in>set d. \<not> older createdAt since i"
    by (simp add: list_all_iff current_not_older)
  with run [rule_format, of fn st] show ?thesis
    by (simp add: visit_def)
qed

theorem callback_never_sees_older_item_witness:
  "older PullRequest.CreatedAt 20240101 (pull 2 20231201) \<and>
   (\<exists>d. calls (snd (iteratePullRequests 4 widgets paired 20240101 pullRequestRow nothing)) =
           [] @ d \<and>
         sink (snd (iteratePullRequests 4 widgets paired 20240101 pullRequestRow nothing)) =
           fold pullRequestRow d [] \<and>
         pull 2 20231201 \<notin> set d)"
proof -
  have old: "older PullRequest.CreatedAt 20240101 (pull 2 20231201)"
    by (simp add: older_def pull_def Before_def)
  from callback_never_sees_older_item
    [of 4 PullRequest.CreatedAt
      "PullRequests_List paired (Organization widgets) (Repository widgets)" 20240101
      pullRequestRow pullRequestOptions nothing]
  obtain d where
    "calls (snd (iteratePullRequests 4 widgets paired 20240101 pullRequestRow nothing)) =
       calls nothing @ d" and
    "sink (snd (iteratePullRequests 4 widgets paired 20240101 pullRequestRow nothing)) =
       fold pullRequestRow d (sink (nothing :: (PullRequest, int option list) effects))" and
    "\<forall>i\<in>set d. \<not> older PullRequest.CreatedAt 20240101 i"
    unfolding iteratePullRequests_def by (elim conjE exE)
  with old show ?thesis
    by (auto simp add: nothing_def)
qed

text \<open>
  Claim C10. If within \<open>k\<close> calls along the chain of next-page cursors a response
  names no next page, or a call returns an error, or a page holds an item that stops the
  traversal (\<open>ends_within\<close>; a chain that \<open>serves\<close> finitely many pages ends within
  their number, by \<open>serves_ends_within\<close>), then the traversal ends, on every run
  of at least \<open>k\<close> iterations, and it has made at most \<open>k\<close> list calls.
\<close>

theorem traversal_terminates:
  assumes "ends_within createdAt list since options k"
    and "k \<le> n"
  shows "\<exists>out st' r. iterate n createdAt list since fn options st = (Some out, st') \<and>
     requests st' = requests st @ r \<and> length r \<le> k"
proof -
  from iterate_ends [OF assms(1), of fn st]
  obtain out st' where run: "iterate k createdAt list since fn options st = (Some out, st')"
    by blast
  from iterate_shape [of k createdAt since list options]
  obtain out' d j where j: "j \<le> k" and
    shape: "\<forall>(fn :: 'a \<Rightarrow> 'b \<Rightarrow> 'b) st.
      iterate k createdAt list since fn options st =
        (out', visit fn d (st\<lparr>requests := requests st @ cursors list options j\<rparr>))"
    by blast
  from run shape [rule_format, of fn st] have
    requests: "requests st' = requests st @ cursors list options j"
    by (auto simp add: visit_def)
  from length_cursors [of list options j] j have bound: "length (cursors list options j) \<le> k"
    by simp
  from assms(2) have "n = k + (n - k)" by simp
  with iterate_more [OF run, of "n - k"] have
    "iterate n createdAt list since fn options st = (Some out, st')" by simp
  with requests bound show ?thesis by blast
qed

theorem traversal_terminates_witness:
  "ends_within Issue.CreatedAt (Issues_ListByRepo acme ''acme'' ''widgets'') 20230101
     issueOptions 3 \<and>
   (\<exists>out st' r. iterateIssues 5 widgets acme 20230101 issueRow nothing = (Some out, st') \<and>
      requests st' = [] @ r \<and> length r \<le> 3)"
proof -
  let ?list = "Issues_ListByRepo acme ''acme'' ''widgets''"
  have ends: "ends_within Issue.CreatedAt ?list 20230101 issueOptions 3"
    by (simp add: scenario_defs eval_nat_numeral current_def Before_def)
  have enough: "(3::nat) \<le> 5" by simp
  show ?thesis
    using ends traversal_terminates [where list = ?list, OF ends enough, of issueRow nothing]
    by (simp add: scenario_defs)
qed

end
